theory Spec2Isabelle
  imports Main
begin

unbundle bit_operations_syntax

section \<open>Data model\<close>

text \<open>
  The module \<open>goph419/binary.py\<close> works on Python lists of bits (most significant bit
  first) and on strings. A bit array is modelled as an \<open>int list\<close>: the source never
  checks that an element is 0 or 1, it reads an element through \<open>bool(x)\<close>, which for
  an integer is \<open>x \<noteq> 0\<close>. Python's unbounded integers are \<open>int\<close>. Every exception the
  code can raise on these types is a constructor of \<open>error\<close>; \<open>ValueError\<close> is the only
  one raised by a \<open>raise\<close> statement, the two others come from a failed subscript.
\<close>

datatype error = ValueError | KeyError | IndexError

text \<open>\<open>int(bool(x))\<close> for an integer \<open>x\<close>.\<close>

definition int_bool :: "int \<Rightarrow> int" where
  "int_bool x = (if x \<noteq> 0 then 1 else 0)"

text \<open>
  \<open>str(k)\<close> for an integer \<open>k\<close>: the decimal digits, with a minus sign for a negative
  number.
\<close>

definition digit_char :: "nat \<Rightarrow> char" where
  "digit_char n = ''0123456789'' ! n"

fun str_nat :: "nat \<Rightarrow> string" where
  "str_nat n = (if n < 10 then [digit_char n] else str_nat (n div 10) @ [digit_char (n mod 10)])"

declare str_nat.simps [simp del]

definition str_int :: "int \<Rightarrow> string" where
  "str_int i = (if i < 0 then CHR ''-'' # str_nat (nat (- i)) else str_nat (nat i))"

text \<open>\<open>"".join(str(b) for b in d)\<close>.\<close>

definition join_str :: "int list \<Rightarrow> string" where
  "join_str d = concat (map str_int d)"

section \<open>Fixed-width binary adder\<close>

text \<open>
  One iteration of the inner loop of \<open>bin_add\<close>, at index \<open>k\<close>:
  \<^verbatim>\<open>
      res[k] ^= add[k]
      add[k] = add[k + 1] & res[k + 1] if k < k_last else 0
  \<close>
  \<open>k_last\<close> is \<open>k_max - 1\<close>, an integer that is \<open>-1\<close> for empty lists; the test
  \<open>k < k_last\<close> is written \<open>k + 1 < k_max\<close> over the naturals. The subscripts are in
  range whenever both lists have length \<open>k_max\<close> and \<open>k < k_max\<close>, which is the only
  way the loops of \<open>bin_add\<close> call it.
\<close>

definition bin_add_body :: "nat \<Rightarrow> nat \<Rightarrow> int list \<times> int list \<Rightarrow> int list \<times> int list" where
  "bin_add_body k_max k = (\<lambda>(res, add).
     (let res' = res[k := (res ! k) XOR (add ! k)];
          add' = add[k := (if k + 1 < k_max then (add ! (k + 1)) AND (res' ! (k + 1)) else 0)]
      in (res', add')))"

text \<open>\<open>for k in range(k_max): ...\<close>, one pass over all positions.\<close>

definition bin_add_pass :: "nat \<Rightarrow> int list \<times> int list \<Rightarrow> int list \<times> int list" where
  "bin_add_pass k_max s = fold (bin_add_body k_max) [0..<k_max] s"

text \<open>
  \<^verbatim>\<open>
  def bin_add(a, b):
      k_max = len(a)
      k_last = k_max - 1
      if k_max != len(b):
          raise ValueError("a and b have different length")
      res = [int(bool(x)) for x in a]
      add = [int(bool(x)) for x in b]
      for _ in range(k_max):
          for k in range(k_max):
              ...
      return res
  \<close>
\<close>

definition bin_add :: "int list \<Rightarrow> int list \<Rightarrow> error + int list" where
  "bin_add a b =
     (let k_max = length a in
      if k_max \<noteq> length b then Inl ValueError
      else Inr (fst (fold (\<lambda>_. bin_add_pass k_max) [0..<k_max]
                      (map int_bool a, map int_bool b))))"

text \<open>
  \<^verbatim>\<open>
  def bin_value(a):
      val = 0
      dig = 2 ** (len(a) - 1)
      for x in a:
          val += bool(x) * dig
          dig //= 2
      return val
  \<close>
  For an empty list Python's \<open>2 ** (-1)\<close> is the float 0.5, which the loop never reads;
  the model starts \<open>dig\<close> at 1 there (natural subtraction), and it is not read either.
\<close>

definition bin_value_body :: "int \<Rightarrow> int \<times> int \<Rightarrow> int \<times> int" where
  "bin_value_body x = (\<lambda>(val, dig). (val + int_bool x * dig, dig div 2))"

definition bin_value :: "int list \<Rightarrow> int" where
  "bin_value a = fst (fold bin_value_body a (0, 2 ^ (length a - 1)))"

section \<open>Fixed-width binary encoders\<close>

text \<open>
  \<^verbatim>\<open>
  def binary_int32_big(x):
      p = 31
      d = []
      while p >= 0:
          d.append(1 if x >= 2**p else 0)
          x -= d[-1] * 2**p
          p -= 1
      return "".join(str(b) for b in d)
  \<close>
  The loop counter of the model is \<open>p + 1\<close>, the number of iterations still to run, so
  that \<open>while p >= 0\<close> is the recursion on it.
\<close>

fun big_loop :: "nat \<Rightarrow> int \<Rightarrow> int list \<Rightarrow> int list" where
  "big_loop 0 x d = d"
| "big_loop (Suc p) x d =
     (let d' = d @ [if x \<ge> 2 ^ p then 1 else 0];
          x' = x - last d' * 2 ^ p
      in big_loop p x' d')"

definition binary_int32_big :: "int \<Rightarrow> string" where
  "binary_int32_big x = join_str (big_loop 32 x [])"

text \<open>
  \<^verbatim>\<open>
  def binary_int32_lit(x):
      p = 0
      d = []
      while p < 32:
          d.append(x % 2)
          x //= 2
          p += 1
      return "".join(str(b) for b in d)
  \<close>
  The counter of the model is \<open>32 - p\<close>. Python's \<open>%\<close> and \<open>//\<close> on integers are
  the flooring \<open>mod\<close> and \<open>div\<close> of \<open>int\<close>.
\<close>

fun lit_loop :: "nat \<Rightarrow> int \<Rightarrow> int list \<Rightarrow> int list" where
  "lit_loop 0 x d = d"
| "lit_loop (Suc n) x d = lit_loop n (x div 2) (d @ [x mod 2])"

definition binary_int32_lit :: "int \<Rightarrow> string" where
  "binary_int32_lit x = join_str (lit_loop 32 x [])"

section \<open>Decimal string to binary string\<close>

text \<open>A loop or a comprehension whose body may raise stops at the first exception.\<close>

fun fold_err :: "('a \<Rightarrow> 's \<Rightarrow> error + 's) \<Rightarrow> 'a list \<Rightarrow> 's \<Rightarrow> error + 's" where
  "fold_err f [] s = Inr s"
| "fold_err f (x # xs) s = (case f x s of Inl e \<Rightarrow> Inl e | Inr s' \<Rightarrow> fold_err f xs s')"

fun map_err :: "('a \<Rightarrow> error + 'b) \<Rightarrow> 'a list \<Rightarrow> error + 'b list" where
  "map_err f [] = Inr []"
| "map_err f (x # xs) =
     (case f x of Inl e \<Rightarrow> Inl e
      | Inr y \<Rightarrow> (case map_err f xs of Inl e \<Rightarrow> Inl e | Inr ys \<Rightarrow> Inr (y # ys)))"

text \<open>\<open>d[k]\<close> on a dict and \<open>x[-1]\<close> on a list.\<close>

definition dict_get :: "('k \<rightharpoonup> 'v) \<Rightarrow> 'k \<Rightarrow> error + 'v" where
  "dict_get d k = (case d k of None \<Rightarrow> Inl KeyError | Some v \<Rightarrow> Inr v)"

definition last_elem :: "'a list \<Rightarrow> error + 'a" where
  "last_elem xs = (if xs = [] then Inl IndexError else Inr (last xs))"

text \<open>
  \<^verbatim>\<open>
  def get_dec2bin_dict():
      bin = [0, 0, 0, 0]
      one = [0, 0, 0, 1]
      dec2bin = dict()
      for k in range(10):
          dec2bin[str(k)] = bin
          bin = bin_add(bin, one)
      return dec2bin
  \<close>
\<close>

definition get_dec2bin_dict_body ::
  "nat \<Rightarrow> int list \<times> (string \<rightharpoonup> int list) \<Rightarrow> error + int list \<times> (string \<rightharpoonup> int list)" where
  "get_dec2bin_dict_body k = (\<lambda>(bin, dec2bin).
     (let dec2bin' = dec2bin(str_int (int k) \<mapsto> bin)
      in case bin_add bin [0, 0, 0, 1] of Inl e \<Rightarrow> Inl e | Inr bin' \<Rightarrow> Inr (bin', dec2bin')))"

definition get_dec2bin_dict :: "error + (string \<rightharpoonup> int list)" where
  "get_dec2bin_dict =
     (case fold_err get_dec2bin_dict_body [0..<10] ([0, 0, 0, 0], Map.empty) of
        Inl e \<Rightarrow> Inl e | Inr (bin, dec2bin) \<Rightarrow> Inr dec2bin)"

text \<open>
  The module variable \<open>_dec2bin = get_dec2bin_dict()\<close>, set when the module is imported.
  Were the call to raise, the import would fail and no function of the module could be
  called; \<open>get_dec2bin_dict_value\<close> below shows that it returns.
\<close>

definition dec2bin_dict :: "string \<rightharpoonup> int list" where
  "dec2bin_dict = (case get_dec2bin_dict of Inl e \<Rightarrow> Map.empty | Inr d \<Rightarrow> d)"

text \<open>
  \<open>dec2bin_array(s) = [_dec2bin[x] for x in s]\<close>; iterating over a string gives its
  characters as strings of length one.
\<close>

definition dec2bin_array :: "string \<Rightarrow> error + int list list" where
  "dec2bin_array s = map_err (\<lambda>x. dict_get dec2bin_dict [x]) s"

text \<open>
  \<^verbatim>\<open>
  def floor_div_2(a):
      res = [0 for _ in range(len(a))]
      res[1:] = a[:-1]
      return res
  \<close>
  The slice assignment keeps \<open>res[:1]\<close> and replaces the rest by \<open>a[:-1]\<close>, the list
  without its last element.
\<close>

definition floor_div_2 :: "int list \<Rightarrow> int list" where
  "floor_div_2 a = (let res = replicate (length a) 0 in take 1 res @ butlast a)"

text \<open>
  \<open>np.any(rem)\<close> on a list of bit arrays of one length (here always 4): some element
  is non-zero. It is false for the empty list.
\<close>

definition np_any :: "int list list \<Rightarrow> bool" where
  "np_any rem = list_ex (list_ex (\<lambda>x. x \<noteq> 0)) rem"

text \<open>
  The body of the loop of \<open>dec2bin\<close>, from the state \<open>(rem, bin)\<close> to the next one:
  \<^verbatim>\<open>
      bin.append(rem[-1][-1])
      add = [_dec2bin["5"] if x[-1] else _dec2bin["0"] for x in rem[:-1]]
      rem = [floor_div_2(x) for x in rem]
      rem[1:] = [bin_add(r, a) for r, a in zip(rem[1:], add)]
  \<close>
\<close>

definition dec2bin_add :: "int list list \<Rightarrow> error + int list list" where
  "dec2bin_add rem =
     map_err (\<lambda>x. case last_elem x of Inl e \<Rightarrow> Inl e
                  | Inr l \<Rightarrow> dict_get dec2bin_dict (if l \<noteq> 0 then ''5'' else ''0''))
             (butlast rem)"

definition dec2bin_step :: "int list list \<times> int list \<Rightarrow> error + int list list \<times> int list" where
  "dec2bin_step = (\<lambda>(rem, bin).
     case last_elem rem of Inl e \<Rightarrow> Inl e | Inr g \<Rightarrow>
     (case last_elem g of Inl e \<Rightarrow> Inl e | Inr b \<Rightarrow>
     (case dec2bin_add rem of Inl e \<Rightarrow> Inl e | Inr add \<Rightarrow>
     (let rem1 = map floor_div_2 rem
      in case map_err (\<lambda>(r, a). bin_add r a) (zip (drop 1 rem1) add) of
           Inl e \<Rightarrow> Inl e
         | Inr new \<Rightarrow> Inr (take 1 rem1 @ new, bin @ [b])))))"

text \<open>
  \<open>while np.any(rem): ...\<close>. \<open>None\<close> is a loop that does not return; an exception in the
  body ends the loop with that exception.
\<close>

partial_function (option) dec2bin_loop ::
  "int list list \<times> int list \<Rightarrow> (error + int list) option" where
  "dec2bin_loop s =
     (if np_any (fst s)
      then (case dec2bin_step s of Inl e \<Rightarrow> Some (Inl e) | Inr s' \<Rightarrow> dec2bin_loop s')
      else Some (Inr (snd s)))"

text \<open>
  The same loop cut off after at most \<open>k\<close> iterations, to count them: the result is
  the state in which the loop stands after \<open>k\<close> iterations, or the state in which it
  has ended before.
\<close>

fun dec2bin_iter :: "nat \<Rightarrow> int list list \<times> int list \<Rightarrow> error + int list list \<times> int list" where
  "dec2bin_iter 0 s = Inr s"
| "dec2bin_iter (Suc k) s =
     (if np_any (fst s)
      then (case dec2bin_step s of Inl e \<Rightarrow> Inl e | Inr s' \<Rightarrow> dec2bin_iter k s')
      else Inr s)"

text \<open>
  \<^verbatim>\<open>
  def dec2bin(s):
      rem = dec2bin_array(str(s))
      bin = []
      while np.any(rem):
          ...
      bin.reverse()
      return "0b" + "".join(str(b) for b in bin)
  \<close>
  The argument is a string here, for which \<open>str(s)\<close> is \<open>s\<close>.
\<close>

definition dec2bin :: "string \<Rightarrow> (error + string) option" where
  "dec2bin s =
     (case dec2bin_array s of
        Inl e \<Rightarrow> Some (Inl e)
      | Inr rem \<Rightarrow>
          (case dec2bin_loop (rem, []) of
             None \<Rightarrow> None
           | Some (Inl e) \<Rightarrow> Some (Inl e)
           | Some (Inr bin) \<Rightarrow> Some (Inr (''0b'' @ join_str (rev bin)))))"

section \<open>Python built-ins that the properties are stated with\<close>

text \<open>
  \<open>int(c)\<close> for a one-character string and \<open>[int(c) for c in s]\<close>: the digits of a
  string as integers, \<open>ValueError\<close> on any other character.
\<close>

definition is_digit :: "char \<Rightarrow> bool" where
  "is_digit c = (c \<in> set ''0123456789'')"

definition int_char :: "char \<Rightarrow> error + int" where
  "int_char c = (if is_digit c then Inr (of_char c - 48) else Inl ValueError)"

definition str_digits :: "string \<Rightarrow> error + int list" where
  "str_digits s = map_err int_char s"

text \<open>
  \<open>int(s)\<close> for a string of decimal digits, without sign, blanks or underscores:
  \<open>ValueError\<close> on the empty string and on any other character.
\<close>

definition int_base10 :: "string \<Rightarrow> error + int" where
  "int_base10 s =
     (if s = [] \<or> \<not> list_all is_digit s then Inl ValueError
      else Inr (foldl (\<lambda>n c. 10 * n + (of_char c - 48)) 0 s))"

text \<open>
  \<open>int(s, 2)\<close> for a string of binary digits with an optional prefix \<open>0b\<close> or \<open>0B\<close>,
  without sign, blanks or underscores: \<open>ValueError\<close> when no digit follows the prefix
  and on any other character.
\<close>

definition int_base2 :: "string \<Rightarrow> error + int" where
  "int_base2 s =
     (let body = (if take 2 s = ''0b'' \<or> take 2 s = ''0B'' then drop 2 s else s)
      in if body = [] \<or> \<not> list_all (\<lambda>c. c = CHR ''0'' \<or> c = CHR ''1'') body then Inl ValueError
         else Inr (foldl (\<lambda>n c. 2 * n + (if c = CHR ''1'' then 1 else 0)) 0 body))"

section \<open>The loop step as the specification words it\<close>

text \<open>
  The specification describes the step as: every group is shifted right, and a correction
  of 5 is added to each group except the least significant one when the bit shifted out
  of that group was 1. This definition follows those words, to be compared with
  \<open>dec2bin_step\<close>, which follows the source.
\<close>

definition step_as_specified :: "int list list \<Rightarrow> error + int list list" where
  "step_as_specified rem =
     (case map_err (\<lambda>x. bin_add (floor_div_2 x) (if x \<noteq> [] \<and> last x \<noteq> 0 then [0, 1, 0, 1] else [0, 0, 0, 0]))
                   (butlast rem) of
        Inl e \<Rightarrow> Inl e
      | Inr front \<Rightarrow> Inr (front @ map floor_div_2 (drop (length rem - 1) rem)))"

section \<open>The demonstration script\<close>

text \<open>
  \<open>examples/binary_example.py\<close> starts with
  \<^verbatim>\<open>
  from goph419.binary import (bin_add_4, bin_value, dec2bin_array, floor_div_2, dec2bin)
  \<close>
  and calls \<open>main()\<close> afterwards. The import binds each name in turn and raises
  \<open>ImportError\<close> at the first one that the module does not define. The names that
  \<open>binary.py\<close> binds at top level are listed in the order of the file.
\<close>

datatype import_error = ImportError string

definition binary_module_names :: "string list" where
  "binary_module_names =
     [''np'', ''binary_int32_big'', ''binary_int32_lit'', ''bin_add'', ''bin_value'',
      ''get_dec2bin_dict'', ''_dec2bin'', ''dec2bin_array'', ''floor_div_2'', ''dec2bin'']"

definition example_imports :: "string list" where
  "example_imports =
     [''bin_add_4'', ''bin_value'', ''dec2bin_array'', ''floor_div_2'', ''dec2bin'']"

fun import_from :: "string list \<Rightarrow> string list \<Rightarrow> import_error + unit" where
  "import_from module [] = Inr ()"
| "import_from module (n # ns) =
     (if n \<in> set module then import_from module ns else Inl (ImportError n))"

section \<open>Notions used in the proofs\<close>

text \<open>
  The value of a bit array, most significant bit first, by recursion on the list. It is
  what \<open>bin_value\<close> computes (lemma \<open>bin_value_bval\<close>).
\<close>

primrec bval :: "int list \<Rightarrow> int" where
  "bval [] = 0"
| "bval (x # xs) = int_bool x * 2 ^ length xs + bval xs"

text \<open>A list whose elements are 0 or 1.\<close>

definition bits :: "int list \<Rightarrow> bool" where
  "bits xs = list_all (\<lambda>x. x = 0 \<or> x = 1) xs"

text \<open>
  The two lists of \<open>bin_add\<close> after the inner loop has handled the positions below
  \<open>m\<close>: the positions not yet handled are unchanged.
\<close>

definition pass_res :: "nat \<Rightarrow> int list \<Rightarrow> int list \<Rightarrow> int list" where
  "pass_res m res add = map (\<lambda>i. if i < m then (res ! i) XOR (add ! i) else res ! i) [0..<length res]"

definition pass_add :: "nat \<Rightarrow> int list \<Rightarrow> int list \<Rightarrow> int list" where
  "pass_add m res add = map (\<lambda>i. if i < m then (if i + 1 < length res then (add ! (i + 1)) AND (res ! (i + 1)) else 0) else add ! i) [0..<length res]"

text \<open>
  The last \<open>j\<close> positions of the carry list are 0, and the invariant of the outer loop of
  \<open>bin_add\<close> after \<open>j\<close> passes: the sum of the two values is unchanged modulo \<open>2 ^ n\<close>.
\<close>

definition zeros_from :: "nat \<Rightarrow> int list \<Rightarrow> bool" where
  "zeros_from j add = (\<forall>i < length add. length add \<le> i + j \<longrightarrow> add ! i = 0)"

definition add_inv :: "nat \<Rightarrow> int \<Rightarrow> nat \<Rightarrow> int list \<times> int list \<Rightarrow> bool" where
  "add_inv n v j = (\<lambda>(res, add).
     length res = n \<and> length add = n \<and> bits res \<and> bits add \<and>
     (bval res + bval add) mod 2 ^ n = v mod 2 ^ n \<and> zeros_from j add)"

text \<open>The character that \<open>str\<close> gives for a bit.\<close>

definition bit_char :: "int \<Rightarrow> char" where
  "bit_char b = (if b = 0 then CHR ''0'' else CHR ''1'')"

text \<open>
  A digit group of the loop of \<open>dec2bin\<close> (four bits), the decimal value of a list of
  groups, the bit that a right shift drops from a group, and the correction that the
  source chooses from that bit.
\<close>

definition wf_group :: "int list \<Rightarrow> bool" where
  "wf_group g = (length g = 4 \<and> bits g)"

primrec bcd :: "int list list \<Rightarrow> int" where
  "bcd [] = 0"
| "bcd (g # gs) = bval g * 10 ^ length gs + bcd gs"

definition lsb :: "int list \<Rightarrow> int" where
  "lsb g = int_bool (last g)"

definition corr :: "int list \<Rightarrow> int list" where
  "corr p = (if last p \<noteq> 0 then [0, 1, 0, 1] else [0, 0, 0, 0])"

text \<open>The binary digits of a natural number, least significant first; none for 0.\<close>

fun bits_lsb :: "nat \<Rightarrow> int list" where
  "bits_lsb n = (if n = 0 then [] else int (n mod 2) # bits_lsb (n div 2))"

declare bits_lsb.simps [simp del]

text \<open>The number that a string of decimal digits denotes.\<close>

definition dec_val :: "string \<Rightarrow> int" where
  "dec_val s = foldl (\<lambda>n c. 10 * n + (of_char c - 48)) 0 s"

text \<open>A digit group that is a valid binary-coded decimal digit.\<close>

definition bcd_group :: "int list \<Rightarrow> bool" where
  "bcd_group g = (length g = 4 \<and> list_all (\<lambda>x. x = 0 \<or> x = 1) g \<and> bin_value g \<le> 9)"

section \<open>The value of a bit array and one pass of the adder\<close>

lemma bin_value_fold:
  "fst (fold bin_value_body xs (v, 2 ^ (length xs - 1))) = v + bval xs"
proof (induction xs arbitrary: v)
  case Nil
  then show ?case by simp
next
  case (Cons x xs)
  show ?case
  proof (cases xs)
    case Nil
    then show ?thesis by (simp add: bin_value_body_def)
  next
    case (Cons y ys)
    then have "(2::int) ^ length xs div 2 = 2 ^ (length xs - 1)" by simp
    then have "fold bin_value_body (x # xs) (v, 2 ^ (length (x # xs) - 1))
      = fold bin_value_body xs (v + int_bool x * 2 ^ length xs, 2 ^ (length xs - 1))"
      by (simp add: bin_value_body_def)
    then show ?thesis using Cons.IH [of "v + int_bool x * 2 ^ length xs"] by simp
  qed
qed

lemma bin_value_bval: "bin_value a = bval a"
  using bin_value_fold [of a 0] by (simp add: bin_value_def)

lemma bval_nonneg: "0 \<le> bval xs"
  by (induction xs) (auto simp: int_bool_def)

lemma bval_less: "bval xs < 2 ^ length xs"
proof (induction xs)
  case Nil
  show ?case by simp
next
  case (Cons x xs)
  have "bval (x # xs) \<le> 2 ^ length xs + bval xs"
    by (simp add: int_bool_def)
  with Cons.IH show ?case by (simp del: bval.simps)
qed

lemma bval_append: "bval (xs @ ys) = bval xs * 2 ^ length ys + bval ys"
  by (induction xs) (auto simp: algebra_simps power_add)

lemma bval_map_int_bool: "bval (map int_bool xs) = bval xs"
  by (induction xs) (auto simp: int_bool_def)

lemma bits_map_int_bool: "bits (map int_bool xs)"
  by (induction xs) (auto simp: int_bool_def bits_def)

lemma pass_prefix:
  assumes "length add = length res" "m \<le> length res"
  shows "fold (bin_add_body (length res)) [0..<m] (res, add) = (pass_res m res add, pass_add m res add)"
  using assms(2)
proof (induction m)
  case 0
  show ?case using assms(1) by (simp add: pass_res_def pass_add_def map_nth) (metis map_nth)
next
  case (Suc m)
  then have m: "m < length res" by simp
  let ?r = "pass_res m res add" and ?a = "pass_add m res add"
  let ?r' = "?r[m := (?r ! m) XOR (?a ! m)]"
  have r: "?r' = pass_res (Suc m) res add"
    using m by (intro nth_equalityI) (auto simp: pass_res_def pass_add_def nth_list_update less_Suc_eq)
  have a: "?a[m := (if m + 1 < length res then (?a ! (m + 1)) AND (?r' ! (m + 1)) else 0)] = pass_add (Suc m) res add"
    using m by (intro nth_equalityI) (auto simp: pass_res_def pass_add_def nth_list_update less_Suc_eq)
  have "fold (bin_add_body (length res)) [0..<Suc m] (res, add)
      = bin_add_body (length res) m (?r, ?a)"
    using Suc by simp
  also have "\<dots> = (?r', ?a[m := (if m + 1 < length res then (?a ! (m + 1)) AND (?r' ! (m + 1)) else 0)])"
    by (simp add: bin_add_body_def Let_def)
  finally show ?case using r a by simp
qed

lemma pass_full:
  assumes "length add = length res"
  shows "bin_add_pass (length res) (res, add) = (pass_res (length res) res add, pass_add (length res) res add)"
  using pass_prefix [OF assms, of "length res"] by (simp add: bin_add_pass_def)

lemma length_pass_res [simp]: "length (pass_res m res add) = length res"
  by (simp add: pass_res_def)

lemma length_pass_add [simp]: "length (pass_add m res add) = length res"
  by (simp add: pass_add_def)

lemma bit_xor: "(x = 0 \<or> x = 1) \<Longrightarrow> (y = 0 \<or> y = 1) \<Longrightarrow> (x XOR y = 0 \<or> x XOR y = (1::int))"
  by auto

lemma bit_and: "(x = 0 \<or> x = 1) \<Longrightarrow> (y = 0 \<or> y = 1) \<Longrightarrow> (x AND y = 0 \<or> x AND y = (1::int))"
  by auto

lemma bits_nth: "bits xs \<Longrightarrow> i < length xs \<Longrightarrow> xs ! i = 0 \<or> xs ! i = 1"
  by (simp add: bits_def list_all_length)

lemma bits_pass_res:
  assumes "bits res" "bits add" "length add = length res"
  shows "bits (pass_res (length res) res add)"
  unfolding bits_def list_all_length
proof (intro allI impI)
  fix i assume "i < length (pass_res (length res) res add)"
  then have i: "i < length res" by simp
  then show "pass_res (length res) res add ! i = 0 \<or> pass_res (length res) res add ! i = 1"
    using bit_xor [OF bits_nth [OF assms(1) i] bits_nth [OF assms(2)]] assms(3)
    by (simp add: pass_res_def)
qed

lemma bits_pass_add:
  assumes "bits res" "bits add" "length add = length res"
  shows "bits (pass_add (length res) res add)"
  unfolding bits_def list_all_length
proof (intro allI impI)
  fix i assume "i < length (pass_add (length res) res add)"
  then have i: "i < length res" by simp
  show "pass_add (length res) res add ! i = 0 \<or> pass_add (length res) res add ! i = 1"
  proof (cases "i + 1 < length res")
    case True
    then show ?thesis
      using bit_and [OF bits_nth [OF assms(2)] bits_nth [OF assms(1)], of "i + 1" "i + 1"] assms(3) i
      by (simp add: pass_add_def)
  next
    case False
    then show ?thesis using i by (simp add: pass_add_def)
  qed
qed

lemma bit_xor_and_sum:
  "(x = 0 \<or> x = 1) \<Longrightarrow> (y = 0 \<or> y = 1) \<Longrightarrow> int_bool (x XOR y) + 2 * int_bool (y AND x) = int_bool x + int_bool (y::int)"
  by (auto simp: int_bool_def)

lemma bval_xor_and:
  assumes "length r = length a" "bits r" "bits a"
  shows "bval (map2 (XOR) r a) + 2 * bval (map2 (AND) a r) = bval r + bval a"
  using assms
proof (induction r a rule: list_induct2)
  case Nil
  show ?case by simp
next
  case (Cons x xs y ys)
  then have xy: "x = 0 \<or> x = 1" "y = 0 \<or> y = 1" and t: "bits xs" "bits ys"
    by (simp_all add: bits_def)
  have "bval (map2 (XOR) (x # xs) (y # ys)) + 2 * bval (map2 (AND) (y # ys) (x # xs))
     = (int_bool (x XOR y) + 2 * int_bool (y AND x)) * 2 ^ length xs
       + (bval (map2 (XOR) xs ys) + 2 * bval (map2 (AND) ys xs))"
    using Cons.hyps by (simp add: algebra_simps)
  also have "\<dots> = (int_bool x + int_bool y) * 2 ^ length xs + (bval xs + bval ys)"
    using bit_xor_and_sum [OF xy] Cons.IH [OF t] by simp
  finally show ?case using Cons.hyps by (simp add: algebra_simps)
qed

lemma pass_res_map2:
  "length add = length res \<Longrightarrow> pass_res (length res) res add = map2 (XOR) res add"
  by (intro nth_equalityI) (simp_all add: pass_res_def)

lemma pass_add_shift:
  assumes "length add = length res" "res \<noteq> []"
  shows "pass_add (length res) res add = tl (map2 (AND) add res) @ [0]"
  using assms
  by (intro nth_equalityI) (auto simp: pass_add_def nth_append nth_tl)

lemma bval_tl_mod:
  "xs \<noteq> [] \<Longrightarrow> (2 * bval (tl xs)) mod 2 ^ length xs = (2 * bval xs) mod 2 ^ length xs"
proof (cases xs)
  case Nil
  then show ?thesis by simp
next
  case (Cons x ys)
  assume "xs \<noteq> []"
  have "2 * bval xs = 2 * bval ys + int_bool x * 2 ^ length xs"
    using Cons by simp
  then show ?thesis using Cons by (simp del: bval.simps power_Suc)
qed

lemma pass_value:
  assumes "length add = length res" "bits res" "bits add"
  shows "(bval (pass_res (length res) res add) + bval (pass_add (length res) res add)) mod 2 ^ length res
       = (bval res + bval add) mod 2 ^ length res"
proof (cases "res = []")
  case True
  then show ?thesis by simp
next
  case False
  let ?c = "map2 (AND) add res"
  have lc: "length ?c = length res" "?c \<noteq> []" using assms(1) False by auto
  have "bval (pass_add (length res) res add) = 2 * bval (tl ?c)"
    using pass_add_shift [OF assms(1) False] by (simp add: bval_append int_bool_def)
  then have "(bval (pass_res (length res) res add) + bval (pass_add (length res) res add)) mod 2 ^ length res
     = (bval (map2 (XOR) res add) + (2 * bval (tl ?c)) mod 2 ^ length ?c) mod 2 ^ length res"
    using pass_res_map2 [OF assms(1)] lc(1) by (simp add: mod_simps)
  also have "\<dots> = (bval (map2 (XOR) res add) + 2 * bval ?c) mod 2 ^ length res"
    using bval_tl_mod [OF lc(2)] lc(1) by (simp add: mod_simps)
  finally show ?thesis using bval_xor_and [of res add] assms by simp
qed

section \<open>The adder computes the sum modulo the width\<close>

lemma pass_add_zeros:
  assumes "length add = length res" "zeros_from j add"
  shows "zeros_from (Suc j) (pass_add (length res) res add)"
  unfolding zeros_from_def
proof (intro allI impI)
  fix i
  let ?n = "length res"
  assume i: "i < length (pass_add ?n res add)"
    and j: "length (pass_add ?n res add) \<le> i + Suc j"
  show "pass_add ?n res add ! i = 0"
  proof (cases "i + 1 < ?n")
    case True
    with j assms have "add ! (i + 1) = 0" by (simp add: zeros_from_def)
    then show ?thesis using i True by (simp add: pass_add_def)
  next
    case False
    then show ?thesis using i by (simp add: pass_add_def)
  qed
qed

lemma add_inv_pass:
  assumes "add_inv n v j s"
  shows "add_inv n v (Suc j) (bin_add_pass n s)"
proof -
  obtain res add where s: "s = (res, add)" by (cases s)
  with assms have l: "length res = n" "length add = length res" and b: "bits res" "bits add"
    and v: "(bval res + bval add) mod 2 ^ n = v mod 2 ^ n" and z: "zeros_from j add"
    by (simp_all add: add_inv_def)
  have p: "bin_add_pass n s = (pass_res n res add, pass_add n res add)"
    using pass_full [OF l(2)] l(1) s by simp
  show ?thesis
    unfolding p add_inv_def
    using l b v bits_pass_res [OF b l(2)] bits_pass_add [OF b l(2)]
      pass_value [OF l(2) b] pass_add_zeros [OF l(2) z]
    by simp
qed

lemma add_inv_iter:
  assumes "add_inv n v 0 s"
  shows "add_inv n v j (fold (\<lambda>_. bin_add_pass n) [0..<j] s)"
proof (induction j)
  case 0
  show ?case using assms by simp
next
  case (Suc j)
  then show ?case by (simp add: add_inv_pass)
qed

lemma zeros_from_all: "zeros_from (length add) add \<Longrightarrow> bval add = 0"
proof -
  assume "zeros_from (length add) add"
  then have "\<forall>x \<in> set add. x = 0"
    by (auto simp: zeros_from_def in_set_conv_nth)
  then show ?thesis by (induction add) (auto simp: int_bool_def)
qed

lemma bin_add_value:
  assumes "length a = length b"
  shows "\<exists>r. bin_add a b = Inr r \<and> length r = length a \<and> bits r
           \<and> bval r = (bval a + bval b) mod 2 ^ length a"
proof -
  let ?n = "length a"
  let ?s = "fold (\<lambda>_. bin_add_pass ?n) [0..<?n] (map int_bool a, map int_bool b)"
  have "add_inv ?n (bval a + bval b) 0 (map int_bool a, map int_bool b)"
    using assms by (simp add: add_inv_def bits_map_int_bool bval_map_int_bool zeros_from_def)
  then have inv: "add_inv ?n (bval a + bval b) ?n ?s" by (rule add_inv_iter)
  obtain res add where s: "?s = (res, add)" by (cases ?s)
  with inv have l: "length res = ?n" "length add = ?n" and b: "bits res"
    and v: "(bval res + bval add) mod 2 ^ ?n = (bval a + bval b) mod 2 ^ ?n"
    and z: "zeros_from ?n add"
    by (simp_all add: add_inv_def)
  from z l have "bval add = 0" using zeros_from_all [of add] by simp
  moreover have "bval res mod 2 ^ ?n = bval res"
    using bval_nonneg [of res] bval_less [of res] l by simp
  ultimately have "bval res = (bval a + bval b) mod 2 ^ ?n" using v by simp
  moreover have "bin_add a b = Inr res" using assms s by (simp add: bin_add_def)
  ultimately show ?thesis using l b by simp
qed

section \<open>Halving and the 32-bit encoders\<close>

lemma floor_div_2_Nil: "floor_div_2 [] = []"
  by (simp add: floor_div_2_def)

lemma floor_div_2_eq: "a \<noteq> [] \<Longrightarrow> floor_div_2 a = 0 # butlast a"
  by (cases a) (simp_all add: floor_div_2_def)

lemma floor_div_2_take: "floor_div_2 a = take (length a) (0 # a)"
proof (cases "a = []")
  case True
  then show ?thesis by (simp add: floor_div_2_def)
next
  case False
  then have "take (length a) (0 # a) = 0 # take (length a - 1) a"
    by (cases a) simp_all
  then show ?thesis using False by (simp add: floor_div_2_eq butlast_conv_take)
qed

lemma length_floor_div_2: "length (floor_div_2 a) = length a"
  by (simp add: floor_div_2_take)

lemma bval_butlast: "a \<noteq> [] \<Longrightarrow> bval a = 2 * bval (butlast a) + int_bool (last a)"
  using bval_append [of "butlast a" "[last a]"] by simp

lemma bval_floor_div_2: "bval (floor_div_2 a) = bval a div 2"
proof (cases "a = []")
  case True
  then show ?thesis by (simp add: floor_div_2_def)
next
  case False
  have "bval (floor_div_2 a) = bval (butlast a)"
    using False by (simp add: floor_div_2_eq int_bool_def)
  moreover have "int_bool (last a) = 0 \<or> int_bool (last a) = 1" by (simp add: int_bool_def)
  ultimately show ?thesis using bval_butlast [OF False] by auto
qed

lemma bits_floor_div_2: "bits a \<Longrightarrow> bits (floor_div_2 a)"
proof (cases "a = []")
  case True
  then show ?thesis by (simp add: floor_div_2_def bits_def)
next
  case False
  assume "bits a"
  then have "\<forall>x \<in> set (butlast a). x = 0 \<or> x = 1"
    by (auto simp: bits_def list_all_iff dest: in_set_butlastD)
  then show ?thesis using False by (simp add: floor_div_2_eq bits_def list_all_iff)
qed

lemma big_loop_acc: "big_loop n x d = d @ big_loop n x []"
proof (induction n arbitrary: x d)
  case 0
  show ?case by simp
next
  case (Suc n)
  show ?case
    using Suc [of "x - (if x \<ge> 2 ^ n then 1 else 0) * 2 ^ n" "d @ [if x \<ge> 2 ^ n then 1 else 0]"]
      Suc [of "x - (if x \<ge> 2 ^ n then 1 else 0) * 2 ^ n" "[if x \<ge> 2 ^ n then 1 else 0]"]
    by (simp add: Let_def)
qed

lemma lit_loop_acc: "lit_loop n x d = d @ lit_loop n x []"
proof (induction n arbitrary: x d)
  case 0
  show ?case by simp
next
  case (Suc n)
  show ?case
    using Suc [of "x div 2" "d @ [x mod 2]"] Suc [of "x div 2" "[x mod 2]"] by simp
qed

lemma big_loop_Suc:
  "big_loop (Suc n) x [] = (if x \<ge> 2 ^ n then 1 # big_loop n (x - 2 ^ n) [] else 0 # big_loop n x [])"
  using big_loop_acc [of n "x - 2 ^ n" "[1]"] big_loop_acc [of n x "[0]"]
  by (simp add: Let_def)

lemma lit_loop_Suc: "lit_loop (Suc n) x [] = (x mod 2) # lit_loop n (x div 2) []"
  using lit_loop_acc [of n "x div 2" "[x mod 2]"] by simp

lemma big_loop_props:
  "0 \<le> x \<Longrightarrow> x < 2 ^ n \<Longrightarrow>
     length (big_loop n x []) = n \<and> bits (big_loop n x []) \<and> bval (big_loop n x []) = x"
proof (induction n arbitrary: x)
  case 0
  then show ?case by (simp add: bits_def)
next
  case (Suc n)
  show ?case
  proof (cases "x \<ge> 2 ^ n")
    case True
    with Suc.prems have "0 \<le> x - 2 ^ n" "x - 2 ^ n < 2 ^ n" by simp_all
    from Suc.IH [OF this] True show ?thesis
      by (simp add: big_loop_Suc bits_def int_bool_def del: big_loop.simps)
  next
    case False
    with Suc.prems have "0 \<le> x" "x < 2 ^ n" by simp_all
    from Suc.IH [OF this] False show ?thesis
      by (simp add: big_loop_Suc bits_def int_bool_def del: big_loop.simps)
  qed
qed

lemma lit_loop_props:
  "0 \<le> x \<Longrightarrow> x < 2 ^ n \<Longrightarrow>
     length (lit_loop n x []) = n \<and> bits (lit_loop n x []) \<and> bval (rev (lit_loop n x [])) = x"
proof (induction n arbitrary: x)
  case 0
  then show ?case by (simp add: bits_def)
next
  case (Suc n)
  from Suc.prems have "0 \<le> x div 2" "x div 2 < 2 ^ n" by simp_all
  from Suc.IH [OF this] have ih: "length (lit_loop n (x div 2) []) = n"
    "bits (lit_loop n (x div 2) [])" "bval (rev (lit_loop n (x div 2) [])) = x div 2"
    by simp_all
  have m: "x mod 2 = 0 \<or> x mod 2 = 1" by presburger
  have "bval (rev (lit_loop (Suc n) x [])) = 2 * (x div 2) + int_bool (x mod 2)"
    using ih(3) by (simp add: lit_loop_Suc bval_append del: lit_loop.simps)
  also have "\<dots> = x" by (cases "x mod 2 = 0") (simp_all add: int_bool_def, presburger+)
  finally show ?case using ih m by (auto simp add: lit_loop_Suc bits_def simp del: lit_loop.simps)
qed

lemma bits_rev: "bits (rev xs) = bits xs"
  by (simp add: bits_def list_all_iff)

lemma bval_inj:
  "length xs = length ys \<Longrightarrow> bits xs \<Longrightarrow> bits ys \<Longrightarrow> bval xs = bval ys \<Longrightarrow> xs = ys"
proof (induction xs ys rule: list_induct2)
  case Nil
  show ?case by simp
next
  case (Cons x xs y ys)
  then have xy: "x = 0 \<or> x = 1" "y = 0 \<or> y = 1" and t: "bits xs" "bits ys"
    by (simp_all add: bits_def)
  have b: "0 \<le> bval xs" "bval xs < 2 ^ length xs" "0 \<le> bval ys" "bval ys < 2 ^ length xs"
    using bval_nonneg bval_less [of xs] bval_less [of ys] Cons.hyps by simp_all
  from Cons.prems(3) Cons.hyps have e: "int_bool x * 2 ^ length xs + bval xs = int_bool y * 2 ^ length xs + bval ys"
    by simp
  have "x = y" using xy e b by (auto simp: int_bool_def)
  with e have "bval xs = bval ys" by simp
  with Cons.IH [OF t] \<open>x = y\<close> show ?case by simp
qed

lemma rev_big_loop:
  assumes "0 \<le> x" "x < 2 ^ n"
  shows "rev (big_loop n x []) = lit_loop n x []"
proof -
  have "big_loop n x [] = rev (lit_loop n x [])"
    using big_loop_props [OF assms] lit_loop_props [OF assms]
    by (intro bval_inj) (simp_all add: bits_rev)
  then show ?thesis by simp
qed

lemma str_int_0: "str_int 0 = ''0''"
  by (simp add: str_int_def str_nat.simps digit_char_def)

lemma str_int_1: "str_int 1 = ''1''"
  by (simp add: str_int_def str_nat.simps digit_char_def)

lemma join_str_bits: "bits d \<Longrightarrow> join_str d = map bit_char d"
  by (induction d) (auto simp: join_str_def bits_def bit_char_def str_int_0 str_int_1)

lemma str_digits_bits: "bits d \<Longrightarrow> str_digits (map bit_char d) = Inr d"
  by (induction d) (auto simp: str_digits_def bits_def bit_char_def int_char_def is_digit_def)

section \<open>The digit table\<close>

lemma upt_0_10: "[0..<10] = [0, 1, 2, 3, 4, 5, 6, 7, 8, 9]"
  by code_simp

lemma upt_0_4: "[0..<4] = [0, 1, 2, 3]"
  by code_simp

lemma bin_add_pass_4:
  "bin_add_pass (Suc (Suc (Suc (Suc 0)))) ([r0, r1, r2, r3], [a0, a1, a2, a3]) =
     ([r0 XOR a0, r1 XOR a1, r2 XOR a2, r3 XOR a3], [a1 AND r1, a2 AND r2, a3 AND r3, 0])"
  by (simp add: bin_add_pass_def bin_add_body_def upt_rec [of 0])

lemma bin_add_4:
  "bin_add [r0, r1, r2, r3] [a0, a1, a2, a3] =
     Inr (fst (bin_add_pass (Suc (Suc (Suc (Suc 0)))) (bin_add_pass (Suc (Suc (Suc (Suc 0))))
       (bin_add_pass (Suc (Suc (Suc (Suc 0)))) (bin_add_pass (Suc (Suc (Suc (Suc 0))))
         ([int_bool r0, int_bool r1, int_bool r2, int_bool r3],
          [int_bool a0, int_bool a1, int_bool a2, int_bool a3]))))))"
  by (simp add: bin_add_def upt_rec [of 0])

lemma get_dec2bin_dict_value:
  "get_dec2bin_dict = Inr
     [''0'' \<mapsto> [0, 0, 0, 0], ''1'' \<mapsto> [0, 0, 0, 1], ''2'' \<mapsto> [0, 0, 1, 0],
      ''3'' \<mapsto> [0, 0, 1, 1], ''4'' \<mapsto> [0, 1, 0, 0], ''5'' \<mapsto> [0, 1, 0, 1],
      ''6'' \<mapsto> [0, 1, 1, 0], ''7'' \<mapsto> [0, 1, 1, 1], ''8'' \<mapsto> [1, 0, 0, 0],
      ''9'' \<mapsto> [1, 0, 0, 1]]"
  by (simp add: get_dec2bin_dict_def get_dec2bin_dict_body_def bin_add_4 bin_add_pass_4
      int_bool_def upt_0_10 str_int_def str_nat.simps digit_char_def)

section \<open>One iteration of the conversion loop\<close>

lemma dec2bin_dict_value:
  "dec2bin_dict =
     [''0'' \<mapsto> [0, 0, 0, 0], ''1'' \<mapsto> [0, 0, 0, 1], ''2'' \<mapsto> [0, 0, 1, 0],
      ''3'' \<mapsto> [0, 0, 1, 1], ''4'' \<mapsto> [0, 1, 0, 0], ''5'' \<mapsto> [0, 1, 0, 1],
      ''6'' \<mapsto> [0, 1, 1, 0], ''7'' \<mapsto> [0, 1, 1, 1], ''8'' \<mapsto> [1, 0, 0, 0],
      ''9'' \<mapsto> [1, 0, 0, 1]]"
  by (simp add: dec2bin_dict_def get_dec2bin_dict_value)

lemma dict_get_5: "dict_get dec2bin_dict ''5'' = Inr [0, 1, 0, 1]"
  by (simp add: dict_get_def dec2bin_dict_value)

lemma dict_get_0: "dict_get dec2bin_dict ''0'' = Inr [0, 0, 0, 0]"
  by (simp add: dict_get_def dec2bin_dict_value)

lemma map_err_Inr: "(\<And>x. x \<in> set xs \<Longrightarrow> f x = Inr (g x)) \<Longrightarrow> map_err f xs = Inr (map g xs)"
  by (induction xs) simp_all

lemma wf_group_nonempty: "wf_group g \<Longrightarrow> g \<noteq> []"
  by (auto simp: wf_group_def)

lemma dec2bin_add_value:
  assumes "list_all wf_group rem"
  shows "dec2bin_add rem = Inr (map corr (butlast rem))"
  unfolding dec2bin_add_def
proof (rule map_err_Inr)
  fix x assume "x \<in> set (butlast rem)"
  then have "x \<in> set rem" by (rule in_set_butlastD)
  with assms have "x \<noteq> []" by (auto simp: list_all_iff dest: wf_group_nonempty)
  then show "(case last_elem x of Inl e \<Rightarrow> Inl e
        | Inr l \<Rightarrow> dict_get dec2bin_dict (if l \<noteq> 0 then ''5'' else ''0'')) = Inr (corr x)"
    by (simp add: last_elem_def corr_def dict_get_5 dict_get_0)
qed

lemma lsb_mod: "g \<noteq> [] \<Longrightarrow> bval g mod 2 = lsb g"
  using bval_butlast [of g] by (auto simp: lsb_def int_bool_def)

lemma lsb_div: "g \<noteq> [] \<Longrightarrow> bval g = 2 * (bval g div 2) + lsb g"
  using lsb_mod [of g] by (metis mult_div_mod_eq)

lemma bval_corr: "bval (corr p) = 5 * lsb p"
  by (simp add: corr_def lsb_def int_bool_def)

lemma add_corr:
  assumes "wf_group g"
  shows "\<exists>r. bin_add (floor_div_2 g) (corr p) = Inr r \<and> wf_group r
            \<and> bval r = bval g div 2 + 5 * lsb p"
proof -
  have l: "length (floor_div_2 g) = length (corr p)"
    using assms by (simp add: length_floor_div_2 wf_group_def corr_def)
  from bin_add_value [OF l] obtain r where r: "bin_add (floor_div_2 g) (corr p) = Inr r"
    "length r = length (floor_div_2 g)" "bits r"
    "bval r = (bval (floor_div_2 g) + bval (corr p)) mod 2 ^ length (floor_div_2 g)"
    by blast
  have g: "0 \<le> bval g" "bval g < 16"
    using bval_nonneg [of g] bval_less [of g] assms by (simp_all add: wf_group_def)
  have "lsb p = 0 \<or> lsb p = 1" by (simp add: lsb_def int_bool_def)
  with g have "0 \<le> bval g div 2 + 5 * lsb p" "bval g div 2 + 5 * lsb p < 16" by auto
  then have "(bval g div 2 + 5 * lsb p) mod 16 = bval g div 2 + 5 * lsb p" by simp
  with r assms show ?thesis
    by (simp add: wf_group_def length_floor_div_2 bval_floor_div_2 bval_corr)
qed

lemma halve_arith:
  fixes q l B X c :: int
  shows "(c * (10 * X) + ((2 * q + l) * X + B)) div 2 = (q + 5 * c) * X + (l * X + B) div 2"
proof -
  have "c * (10 * X) + ((2 * q + l) * X + B) = (l * X + B) + ((q + 5 * c) * X) * 2"
    by (simp add: algebra_simps)
  then show ?thesis by simp
qed

lemma tail_step:
  assumes "list_all wf_group gs"
  shows "\<exists>new. map_err (\<lambda>(r, a). bin_add r a)
                  (zip (map floor_div_2 gs) (map corr (butlast (p # gs)))) = Inr new
           \<and> length new = length gs \<and> list_all wf_group new
           \<and> bcd new = (lsb p * 10 ^ length gs + bcd gs) div 2
           \<and> (\<forall>i < length gs. bval (new ! i) = bval (gs ! i) div 2 + 5 * lsb ((p # gs) ! i))"
  using assms
proof (induction gs arbitrary: p)
  case Nil
  have "lsb p = 0 \<or> lsb p = 1" by (simp add: lsb_def int_bool_def)
  then show ?case by auto
next
  case (Cons g gs)
  then have g: "wf_group g" and gs: "list_all wf_group gs" by simp_all
  from add_corr [OF g, of p] obtain r where r: "bin_add (floor_div_2 g) (corr p) = Inr r"
    "wf_group r" "bval r = bval g div 2 + 5 * lsb p" by blast
  from Cons.IH [OF gs, of g] obtain new where new:
    "map_err (\<lambda>(r, a). bin_add r a) (zip (map floor_div_2 gs) (map corr (butlast (g # gs)))) = Inr new"
    "length new = length gs" "list_all wf_group new"
    "bcd new = (lsb g * 10 ^ length gs + bcd gs) div 2"
    "\<forall>i < length gs. bval (new ! i) = bval (gs ! i) div 2 + 5 * lsb ((g # gs) ! i)"
    by blast
  have m: "map_err (\<lambda>(r, a). bin_add r a)
      (zip (map floor_div_2 (g # gs)) (map corr (butlast (p # g # gs)))) = Inr (r # new)"
    using r(1) new(1) by simp
  have "bcd (r # new) = (bval g div 2 + 5 * lsb p) * 10 ^ length gs + (lsb g * 10 ^ length gs + bcd gs) div 2"
    using r(3) new(2,4) by simp
  also have "\<dots> = (lsb p * (10 * 10 ^ length gs) + ((2 * (bval g div 2) + lsb g) * 10 ^ length gs + bcd gs)) div 2"
    by (rule halve_arith [symmetric])
  also have "\<dots> = (lsb p * 10 ^ length (g # gs) + bcd (g # gs)) div 2"
    using lsb_div [OF wf_group_nonempty [OF g]] by simp
  finally have v: "bcd (r # new) = (lsb p * 10 ^ length (g # gs) + bcd (g # gs)) div 2" .
  have n: "\<forall>i < length (g # gs). bval ((r # new) ! i) = bval ((g # gs) ! i) div 2 + 5 * lsb ((p # g # gs) ! i)"
  proof (intro allI impI)
    fix i assume "i < length (g # gs)"
    then show "bval ((r # new) ! i) = bval ((g # gs) ! i) div 2 + 5 * lsb ((p # g # gs) ! i)"
      using r(3) new(5) by (cases i) simp_all
  qed
  show ?case using m v n r(2) new(2,3) by (intro exI [of _ "r # new"]) simp
qed

lemma bcd_mod_2:
  "rem \<noteq> [] \<Longrightarrow> list_all wf_group rem \<Longrightarrow> bcd rem mod 2 = lsb (last rem)"
proof (induction rem)
  case Nil
  then show ?case by simp
next
  case (Cons g gs)
  show ?case
  proof (cases "gs = []")
    case True
    with Cons.prems show ?thesis by (simp add: lsb_mod wf_group_nonempty)
  next
    case False
    then have "even ((10::int) ^ length gs)" by simp
    then have "(bval g * 10 ^ length gs + bcd gs) mod 2 = bcd gs mod 2"
      by (metis dvd_mult mod_add_left_eq mod_0_imp_dvd dvd_imp_mod_0 add.left_neutral mod_mod_trivial)
    with Cons False show ?thesis by simp
  qed
qed

section \<open>The conversion loop\<close>

lemma bits_last: "bits g \<Longrightarrow> g \<noteq> [] \<Longrightarrow> last g = lsb g"
proof -
  assume "bits g" "g \<noteq> []"
  then have "last g = 0 \<or> last g = 1" by (auto simp: bits_def list_all_iff)
  then show ?thesis by (auto simp: lsb_def int_bool_def)
qed

lemma bcd_nonneg: "0 \<le> bcd rem"
  by (induction rem) (simp_all add: bval_nonneg)

lemma bval_zero_iff: "bval g = 0 \<longleftrightarrow> \<not> list_ex (\<lambda>x. x \<noteq> 0) g"
proof (induction g)
  case Nil
  show ?case by simp
next
  case (Cons x g)
  have "0 < (2::int) ^ length g + bval g"
    by (rule add_pos_nonneg) (simp_all add: bval_nonneg)
  then have "int_bool x * 2 ^ length g + bval g = 0 \<longleftrightarrow> x = 0 \<and> bval g = 0"
    by (cases "x = 0") (simp_all add: int_bool_def)
  with Cons show ?case by simp
qed

lemma bcd_zero_iff: "bcd rem = 0 \<longleftrightarrow> \<not> np_any rem"
proof (induction rem)
  case Nil
  show ?case by (simp add: np_any_def)
next
  case (Cons g rem)
  have "0 \<le> bval g * 10 ^ length rem" using bval_nonneg [of g] by simp
  then have "bval g * 10 ^ length rem + bcd rem = 0 \<longleftrightarrow> bval g = 0 \<and> bcd rem = 0"
    using bcd_nonneg [of rem] by (simp add: add_nonneg_eq_0_iff)
  with Cons show ?case by (simp add: np_any_def bval_zero_iff)
qed

lemma step_value:
  assumes "rem \<noteq> []" "list_all wf_group rem"
  shows "\<exists>rem'. dec2bin_step (rem, bin) = Inr (rem', bin @ [last (last rem)])
           \<and> length rem' = length rem \<and> list_all wf_group rem'
           \<and> bcd rem' = bcd rem div 2
           \<and> (\<forall>i < length rem. bval (rem' ! i) =
                 bval (rem ! i) div 2 + (if i = 0 then 0 else 5 * lsb (rem ! (i - 1))))"
proof -
  from assms(1) obtain g gs where rem: "rem = g # gs" by (cases rem) auto
  with assms(2) have g: "wf_group g" and gs: "list_all wf_group gs" by simp_all
  have lg: "wf_group (last rem)" using assms by (simp add: list_all_iff)
  from tail_step [OF gs, of g] obtain new where new:
    "map_err (\<lambda>(r, a). bin_add r a) (zip (map floor_div_2 gs) (map corr (butlast (g # gs)))) = Inr new"
    "length new = length gs" "list_all wf_group new"
    "bcd new = (lsb g * 10 ^ length gs + bcd gs) div 2"
    "\<forall>i < length gs. bval (new ! i) = bval (gs ! i) div 2 + 5 * lsb ((g # gs) ! i)"
    by blast
  let ?rem' = "floor_div_2 g # new"
  have s: "dec2bin_step (rem, bin) = Inr (?rem', bin @ [last (last rem)])"
    using assms(1) wf_group_nonempty [OF lg] dec2bin_add_value [OF assms(2)] new(1)
    by (simp add: dec2bin_step_def last_elem_def rem)
  have w: "wf_group (floor_div_2 g)"
    using g by (simp add: wf_group_def length_floor_div_2 bits_floor_div_2)
  have "bcd ?rem' = (bval g div 2 + 5 * 0) * 10 ^ length gs + (lsb g * 10 ^ length gs + bcd gs) div 2"
    using new(2,4) by (simp add: bval_floor_div_2)
  also have "\<dots> = (0 * (10 * 10 ^ length gs) + ((2 * (bval g div 2) + lsb g) * 10 ^ length gs + bcd gs)) div 2"
    by (rule halve_arith [symmetric])
  also have "\<dots> = bcd rem div 2"
    using lsb_div [OF wf_group_nonempty [OF g]] by (simp add: rem)
  finally have v: "bcd ?rem' = bcd rem div 2" .
  have n: "\<forall>i < length rem. bval (?rem' ! i) =
      bval (rem ! i) div 2 + (if i = 0 then 0 else 5 * lsb (rem ! (i - 1)))"
  proof (intro allI impI)
    fix i assume "i < length rem"
    then show "bval (?rem' ! i) = bval (rem ! i) div 2 + (if i = 0 then 0 else 5 * lsb (rem ! (i - 1)))"
      using new(5) by (cases i) (simp_all add: rem bval_floor_div_2)
  qed
  show ?thesis using s v n w new(2,3) by (intro exI [of _ ?rem']) (simp add: rem)
qed

lemma loop_value:
  "list_all wf_group rem \<Longrightarrow>
     dec2bin_loop (rem, bin) = Some (Inr (bin @ bits_lsb (nat (bcd rem))))"
proof (induction "nat (bcd rem)" arbitrary: rem bin rule: less_induct)
  case less
  show ?case
  proof (cases "np_any rem")
    case False
    then have "bcd rem = 0" by (simp add: bcd_zero_iff)
    with False show ?thesis by (simp add: dec2bin_loop.simps bits_lsb.simps)
  next
    case True
    then have pos: "0 < bcd rem" using bcd_zero_iff [of rem] bcd_nonneg [of rem] by simp
    from True have ne: "rem \<noteq> []" by (auto simp: np_any_def)
    from step_value [OF ne less.prems, of bin] obtain rem' where rem':
      "dec2bin_step (rem, bin) = Inr (rem', bin @ [last (last rem)])"
      "list_all wf_group rem'" "bcd rem' = bcd rem div 2"
      by blast
    have lt: "nat (bcd rem') < nat (bcd rem)" using pos rem'(3) by simp
    have lg: "wf_group (last rem)" using ne less.prems by (simp add: list_all_iff)
    have b: "last (last rem) = bcd rem mod 2"
      using bits_last [of "last rem"] lg bcd_mod_2 [OF ne less.prems]
      by (simp add: wf_group_def wf_group_nonempty)
    have u1: "bits_lsb (nat (bcd rem)) = int (nat (bcd rem) mod 2) # bits_lsb (nat (bcd rem) div 2)"
      using pos by (subst bits_lsb.simps) simp
    have "nat (bcd rem mod 2) = nat (bcd rem) mod nat 2"
      using pos by (intro nat_mod_distrib) simp_all
    then have u2: "int (nat (bcd rem) mod 2) = bcd rem mod 2" by simp
    have "nat (bcd rem div 2) = nat (bcd rem) div nat 2"
      using pos by (intro nat_div_distrib) simp
    then have u3: "nat (bcd rem) div 2 = nat (bcd rem')" using rem'(3) by simp
    have u: "bits_lsb (nat (bcd rem)) = last (last rem) # bits_lsb (nat (bcd rem'))"
      using u1 u2 u3 b by simp
    have "dec2bin_loop (rem, bin) = dec2bin_loop (rem', bin @ [last (last rem)])"
      using True rem'(1) by (subst dec2bin_loop.simps) simp
    also have "\<dots> = Some (Inr ((bin @ [last (last rem)]) @ bits_lsb (nat (bcd rem'))))"
      using lt rem'(2) by (rule less.hyps)
    finally show ?thesis using u by simp
  qed
qed

lemma iter_value:
  "list_all wf_group rem \<Longrightarrow>
     \<exists>k rem'. dec2bin_iter k (rem, bin) = Inr (rem', bin @ bits_lsb (nat (bcd rem)))
        \<and> \<not> np_any rem'"
proof (induction "nat (bcd rem)" arbitrary: rem bin rule: less_induct)
  case less
  show ?case
  proof (cases "np_any rem")
    case False
    then have "bcd rem = 0" by (simp add: bcd_zero_iff)
    then have "dec2bin_iter 0 (rem, bin) = Inr (rem, bin @ bits_lsb (nat (bcd rem)))"
      by (simp add: bits_lsb.simps)
    with False show ?thesis by blast
  next
    case True
    then have pos: "0 < bcd rem" using bcd_zero_iff [of rem] bcd_nonneg [of rem] by simp
    from True have ne: "rem \<noteq> []" by (auto simp: np_any_def)
    from step_value [OF ne less.prems, of bin] obtain rem1 where rem1:
      "dec2bin_step (rem, bin) = Inr (rem1, bin @ [last (last rem)])"
      "list_all wf_group rem1" "bcd rem1 = bcd rem div 2"
      by blast
    have lt: "nat (bcd rem1) < nat (bcd rem)" using pos rem1(3) by simp
    from loop_value [OF less.prems, of bin] loop_value [OF rem1(2), of "bin @ [last (last rem)]"]
    have u: "bin @ bits_lsb (nat (bcd rem)) = (bin @ [last (last rem)]) @ bits_lsb (nat (bcd rem1))"
      using True rem1(1) by (subst (asm) dec2bin_loop.simps) simp
    from less.hyps [OF lt rem1(2), of "bin @ [last (last rem)]"] obtain k rem' where k:
      "dec2bin_iter k (rem1, bin @ [last (last rem)])
         = Inr (rem', (bin @ [last (last rem)]) @ bits_lsb (nat (bcd rem1)))" "\<not> np_any rem'"
      by blast
    have "dec2bin_iter (Suc k) (rem, bin) = Inr (rem', bin @ bits_lsb (nat (bcd rem)))"
      using True rem1(1) k(1) u by simp
    with k(2) show ?thesis by blast
  qed
qed

section \<open>The converter on strings of digits\<close>

lemma digit_lookup:
  "is_digit c \<Longrightarrow> \<exists>g. dict_get dec2bin_dict [c] = Inr g \<and> wf_group g \<and> bval g = of_char c - 48"
  by (auto simp: is_digit_def dict_get_def dec2bin_dict_value wf_group_def bits_def int_bool_def)

lemma nondigit_lookup: "\<not> is_digit c \<Longrightarrow> dict_get dec2bin_dict [c] = Inl KeyError"
  by (simp add: is_digit_def dict_get_def dec2bin_dict_value)

lemma zero_lookup: "dict_get dec2bin_dict ''0'' = Inr [0, 0, 0, 0]"
  by (rule dict_get_0)

lemma dec2bin_array_digits:
  "list_all is_digit s \<Longrightarrow>
     \<exists>gs. dec2bin_array s = Inr gs \<and> list_all wf_group gs \<and> length gs = length s
       \<and> (\<forall>a. foldl (\<lambda>n c. 10 * n + (of_char c - 48)) a s = a * 10 ^ length s + bcd gs)"
proof (induction s)
  case Nil
  show ?case by (simp add: dec2bin_array_def)
next
  case (Cons c s)
  then have c: "is_digit c" and s: "list_all is_digit s" by simp_all
  from digit_lookup [OF c] obtain g where g: "dict_get dec2bin_dict [c] = Inr g"
    "wf_group g" "bval g = of_char c - 48" by blast
  from Cons.IH [OF s] obtain gs where gs: "dec2bin_array s = Inr gs" "list_all wf_group gs"
    "length gs = length s"
    "\<forall>a. foldl (\<lambda>n c. 10 * n + (of_char c - 48)) a s = a * 10 ^ length s + bcd gs"
    by blast
  have "dec2bin_array (c # s) = Inr (g # gs)"
    using g(1) gs(1) by (simp add: dec2bin_array_def)
  moreover have "\<forall>a. foldl (\<lambda>n c. 10 * n + (of_char c - 48)) a (c # s)
      = a * 10 ^ length (c # s) + bcd (g # gs)"
  proof
    fix a
    have "foldl (\<lambda>n c. 10 * n + (of_char c - 48)) a (c # s)
        = (10 * a + bval g) * 10 ^ length s + bcd gs"
      using gs(4) g(3) by simp
    then show "foldl (\<lambda>n c. 10 * n + (of_char c - 48)) a (c # s)
        = a * 10 ^ length (c # s) + bcd (g # gs)"
      using gs(3) by (simp add: algebra_simps)
  qed
  ultimately show ?case using g(2) gs(2,3) by (intro exI [of _ "g # gs"]) simp
qed

lemma dec2bin_array_nondigit:
  "\<not> list_all is_digit s \<Longrightarrow> dec2bin_array s = Inl KeyError"
proof (induction s)
  case Nil
  then show ?case by simp
next
  case (Cons c s)
  show ?case
  proof (cases "is_digit c")
    case True
    with Cons have "dec2bin_array s = Inl KeyError" by simp
    moreover from digit_lookup [OF True] obtain g where "dict_get dec2bin_dict [c] = Inr g" by blast
    ultimately show ?thesis by (simp add: dec2bin_array_def)
  next
    case False
    then show ?thesis by (simp add: dec2bin_array_def nondigit_lookup)
  qed
qed

lemma dec2bin_digits:
  assumes "list_all is_digit s"
  shows "\<exists>rem. dec2bin_array s = Inr rem \<and> np_any rem = (dec_val s \<noteq> 0)
           \<and> dec2bin_loop (rem, []) = Some (Inr (bits_lsb (nat (dec_val s))))
           \<and> dec2bin s = Some (Inr (''0b'' @ join_str (rev (bits_lsb (nat (dec_val s))))))"
proof -
  from dec2bin_array_digits [OF assms] obtain gs where gs: "dec2bin_array s = Inr gs"
    "list_all wf_group gs" "bcd gs = dec_val s"
    by (auto simp: dec_val_def)
  have l: "dec2bin_loop (gs, []) = Some (Inr (bits_lsb (nat (dec_val s))))"
    using loop_value [OF gs(2), of "[]"] gs(3) by simp
  have "np_any gs = (dec_val s \<noteq> 0)" using bcd_zero_iff [of gs] gs(3) by simp
  then show ?thesis using gs(1) l by (simp add: dec2bin_def)
qed

lemma dec_val_nonneg: "list_all is_digit s \<Longrightarrow> 0 \<le> dec_val s"
proof -
  assume "list_all is_digit s"
  from dec2bin_array_digits [OF this] obtain gs where "bcd gs = dec_val s"
    by (auto simp: dec_val_def)
  then show ?thesis using bcd_nonneg [of gs] by simp
qed

lemma bits_bits_lsb: "bits (bits_lsb n)"
proof (induction n rule: bits_lsb.induct)
  case (1 n)
  show ?case
  proof (cases "n = 0")
    case True
    then show ?thesis by (subst bits_lsb.simps) (simp add: bits_def)
  next
    case False
    have "n mod 2 = 0 \<or> n mod 2 = 1" by presburger
    with False 1 show ?thesis by (subst bits_lsb.simps) (auto simp: bits_def)
  qed
qed

lemma bval_rev_bits_lsb: "bval (rev (bits_lsb n)) = int n"
proof (induction n rule: bits_lsb.induct)
  case (1 n)
  show ?case
  proof (cases "n = 0")
    case True
    then show ?thesis by (subst bits_lsb.simps) simp
  next
    case False
    have m: "n mod 2 = 0 \<or> n mod 2 = 1" by presburger
    have "bval (rev (bits_lsb n)) = 2 * bval (rev (bits_lsb (n div 2))) + int_bool (int (n mod 2))"
      using False by (subst bits_lsb.simps) (simp add: bval_append)
    also have "\<dots> = 2 * int (n div 2) + int (n mod 2)"
      using 1 False m by (auto simp: int_bool_def)
    also have "\<dots> = int n" by presburger
    finally show ?thesis .
  qed
qed

lemma bits_lsb_nonempty: "0 < n \<Longrightarrow> bits_lsb n \<noteq> []"
  by (subst bits_lsb.simps) simp

lemma foldl_bit_char:
  "bits d \<Longrightarrow> foldl (\<lambda>n c. 2 * n + (if c = CHR ''1'' then 1 else 0)) a (map bit_char d)
     = a * 2 ^ length d + bval d"
proof (induction d arbitrary: a)
  case Nil
  show ?case by simp
next
  case (Cons x d)
  then have x: "x = 0 \<or> x = 1" and d: "bits d" by (simp_all add: bits_def)
  show ?case using x Cons.IH [OF d]
    by (auto simp: bit_char_def int_bool_def algebra_simps)
qed

lemma int_base2_bits:
  assumes "bits d" "d \<noteq> []"
  shows "int_base2 (''0b'' @ join_str d) = Inr (bval d)"
proof -
  have j: "join_str d = map bit_char d" using assms(1) by (rule join_str_bits)
  have "list_all (\<lambda>c. c = CHR ''0'' \<or> c = CHR ''1'') (map bit_char d)"
    by (induction d) (simp_all add: bit_char_def)
  then show ?thesis
    using assms(2) foldl_bit_char [OF assms(1), of 0] by (simp add: int_base2_def j)
qed

lemma int_base2_0b: "int_base2 ''0b'' = Inl ValueError"
  by (simp add: int_base2_def)

lemma dec2bin_roundtrip_pos:
  assumes "int_base10 s = Inr n" "0 < n"
  shows "\<exists>out. dec2bin s = Some (Inr out) \<and> int_base2 out = Inr n"
proof -
  from assms(1) have d: "list_all is_digit s" and n: "n = dec_val s"
    by (auto simp: int_base10_def dec_val_def split: if_splits)
  let ?b = "rev (bits_lsb (nat n))"
  from dec2bin_digits [OF d] have o: "dec2bin s = Some (Inr (''0b'' @ join_str ?b))"
    using n by auto
  have "int_base2 (''0b'' @ join_str ?b) = Inr (bval ?b)"
    using assms(2) bits_lsb_nonempty [of "nat n"]
    by (intro int_base2_bits) (simp_all add: bits_rev bits_bits_lsb)
  then show ?thesis using o assms(2) by (simp add: bval_rev_bits_lsb)
qed

lemma dec2bin_913: "dec2bin ''913'' = Some (Inr ''0b1110010001'')"
proof -
  have "list_all is_digit ''913''" by (simp add: is_digit_def)
  from dec2bin_digits [OF this]
  have "dec2bin ''913'' = Some (Inr (''0b'' @ join_str (rev (bits_lsb (nat (dec_val ''913''))))))"
    by auto
  moreover have "dec_val ''913'' = 913" by (simp add: dec_val_def)
  ultimately show ?thesis
    by (simp add: bits_lsb.simps join_str_def str_int_def str_nat.simps digit_char_def)
qed

lemma list_all_bit_char: "list_all (\<lambda>c. c = CHR ''0'' \<or> c = CHR ''1'') (map bit_char d)"
  by (induction d) (simp_all add: bit_char_def)

section \<open>The claims of the specification\<close>

text \<open>
  Claim C1. For bit arrays \<open>a\<close> and \<open>b\<close> of one length, whatever integers they hold
  (an element counts as 1 when it is not 0), \<open>bin_add a b\<close> returns a bit array of that
  length whose value is \<open>(bin_value a + bin_value b) mod 2 ^ length a\<close>; and
  \<open>bin_add [0,1,1,1] [0,1,0,1]\<close> is \<open>[1,1,0,0]\<close>, that is 7 + 5 = 12.
\<close>

theorem bin_add_correct:
  "(length a = length b \<longrightarrow>
      (\<exists>r. bin_add a b = Inr r \<and> length r = length a
          \<and> bin_value r = (bin_value a + bin_value b) mod 2 ^ length a))
   \<and> bin_add [0, 1, 1, 1] [0, 1, 0, 1] = Inr [1, 1, 0, 0]
   \<and> bin_value [0, 1, 1, 1] = 7 \<and> bin_value [0, 1, 0, 1] = 5 \<and> bin_value [1, 1, 0, 0] = 12"
proof -
  have "length a = length b \<longrightarrow>
      (\<exists>r. bin_add a b = Inr r \<and> length r = length a
          \<and> bin_value r = (bin_value a + bin_value b) mod 2 ^ length a)"
    using bin_add_value [of a b] by (auto simp: bin_value_bval)
  moreover have "bin_add [0, 1, 1, 1] [0, 1, 0, 1] = Inr [1, 1, 0, 0]"
    by (simp add: bin_add_4 bin_add_pass_4 int_bool_def)
  moreover have "bin_value [0, 1, 1, 1] = 7" "bin_value [0, 1, 0, 1] = 5" "bin_value [1, 1, 0, 0] = 12"
    by (simp_all add: bin_value_def bin_value_body_def int_bool_def)
  ultimately show ?thesis by blast
qed

theorem bin_add_correct_witness:
  "length [2, 0, 5 :: int] = length [0, 7, 1 :: int]
   \<and> (\<exists>r. bin_add [2, 0, 5] [0, 7, 1] = Inr r \<and> length r = length [2, 0, 5 :: int]
         \<and> bin_value r = (bin_value [2, 0, 5] + bin_value [0, 7, 1]) mod 2 ^ length [2, 0, 5 :: int])"
  using bin_add_correct [of "[2, 0, 5]" "[0, 7, 1]"] by simp

text \<open>
  Claim C2 at the string \<open>0\<close>. The string denotes 0, \<open>dec2bin\<close> returns \<open>0b\<close> with
  no digit after the prefix, and \<open>int(..., 2)\<close> raises \<open>ValueError\<close> on that string
  instead of returning 0. For a string that denotes a positive number the round trip
  holds (lemma \<open>dec2bin_roundtrip_pos\<close>), and \<open>dec2bin\<close> of \<open>913\<close> is
  \<open>0b1110010001\<close> (lemma \<open>dec2bin_913\<close>).
\<close>

theorem dec2bin_zero_no_roundtrip:
  "int_base10 ''0'' = Inr 0 \<and> dec2bin ''0'' = Some (Inr ''0b'') \<and> int_base2 ''0b'' = Inl ValueError"
proof -
  have d: "list_all is_digit ''0''" by (simp add: is_digit_def)
  have v: "dec_val ''0'' = 0" by (simp add: dec_val_def)
  from dec2bin_digits [OF d] have "dec2bin ''0'' = Some (Inr ''0b'')"
    by (auto simp: v bits_lsb.simps join_str_def)
  moreover have "int_base10 ''0'' = Inr 0" by (simp add: int_base10_def is_digit_def)
  ultimately show ?thesis by (simp add: int_base2_0b)
qed

text \<open>
  Claim C3. \<open>bin_add a b\<close> raises \<open>ValueError\<close> exactly when the lengths differ, and
  raises nothing else; \<open>bin_add [0,1] [0,0,1]\<close> raises. The two other functions that call
  \<open>bin_add\<close>, \<open>get_dec2bin_dict\<close> and \<open>dec2bin\<close>, and \<open>dec2bin_array\<close> never
  end with \<open>ValueError\<close>, on any string; the remaining functions of the module have no
  error result at all.
\<close>

theorem bin_add_raises_iff:
  "(bin_add a b = Inl ValueError \<longleftrightarrow> length a \<noteq> length b)
   \<and> (isl (bin_add a b) \<longleftrightarrow> length a \<noteq> length b)
   \<and> bin_add [0, 1] [0, 0, 1] = Inl ValueError
   \<and> get_dec2bin_dict \<noteq> Inl ValueError
   \<and> dec2bin_array s \<noteq> Inl ValueError
   \<and> dec2bin s \<noteq> Some (Inl ValueError)"
proof -
  have 1: "bin_add a b = Inl ValueError \<longleftrightarrow> length a \<noteq> length b"
    and 2: "isl (bin_add a b) \<longleftrightarrow> length a \<noteq> length b"
    by (simp_all add: bin_add_def Let_def)
  have 3: "bin_add [0, 1] [0, 0, 1] = Inl ValueError" by (simp add: bin_add_def)
  have 4: "get_dec2bin_dict \<noteq> Inl ValueError" by (simp add: get_dec2bin_dict_value)
  have 5: "dec2bin_array s \<noteq> Inl ValueError" and 6: "dec2bin s \<noteq> Some (Inl ValueError)"
  proof -
    show "dec2bin_array s \<noteq> Inl ValueError"
      using dec2bin_array_digits [of s] dec2bin_array_nondigit [of s]
      by (cases "list_all is_digit s") auto
    show "dec2bin s \<noteq> Some (Inl ValueError)"
    proof (cases "list_all is_digit s")
      case True
      from dec2bin_digits [OF this] show ?thesis by auto
    next
      case False
      then show ?thesis by (simp add: dec2bin_def dec2bin_array_nondigit)
    qed
  qed
  from 1 2 3 4 5 6 show ?thesis by blast
qed

theorem bin_add_raises_iff_witness:
  "bin_add [0, 1] [0, 0, 1] = Inl ValueError \<and> length [0, 1 :: int] \<noteq> length [0, 0, 1 :: int]
   \<and> bin_add [1, 1] [0, 1] \<noteq> Inl ValueError
   \<and> dec2bin ''9a'' \<noteq> Some (Inl ValueError)"
  using bin_add_raises_iff [of "[0, 1]" "[0, 0, 1]" "''9a''"]
    bin_add_raises_iff [of "[1, 1]" "[0, 1]" "''9a''"] by simp

text \<open>
  Claim C4 as the specification words it fails on the state of the string \<open>10\<close>. The
  bit shifted out of the first group is 1 and the first group is not the least
  significant one, yet after the step of the source the first group is 0 and the
  correction 5 is in the second, least significant, group; the step as specified would
  give 5 and 0.
\<close>

theorem step_as_specified_counterexample:
  "dec2bin_step ([[0, 0, 0, 1], [0, 0, 0, 0]], []) = Inr ([[0, 0, 0, 0], [0, 1, 0, 1]], [0])
   \<and> step_as_specified [[0, 0, 0, 1], [0, 0, 0, 0]] = Inr [[0, 1, 0, 1], [0, 0, 0, 0]]
   \<and> map_sum id fst (dec2bin_step ([[0, 0, 0, 1], [0, 0, 0, 0]], []))
       \<noteq> step_as_specified [[0, 0, 0, 1], [0, 0, 0, 0]]"
  by (simp add: dec2bin_step_def dec2bin_add_def step_as_specified_def last_elem_def
      dict_get_5 dict_get_0 floor_div_2_def bin_add_4 bin_add_pass_4 int_bool_def)

text \<open>
  Claim C4, amended. On a non-empty state of valid digit groups the step of the loop
  appends the last bit of the last group to the output, shifts every group right, and
  adds a correction of 5 to each group except the most significant one, exactly when
  the bit shifted out of the group before it (the next more significant one) was 1;
  every group is a valid digit (four bits, value at most 9) after the step.
\<close>

theorem dec2bin_step_correction:
  assumes "rem \<noteq> []" "list_all bcd_group rem"
  shows "\<exists>rem'. dec2bin_step (rem, bin) = Inr (rem', bin @ [last (last rem)])
           \<and> length rem' = length rem
           \<and> list_all bcd_group rem'
           \<and> (\<forall>i < length rem. bin_value (rem' ! i) =
                 bin_value (rem ! i) div 2
                 + (if 0 < i \<and> last (rem ! (i - 1)) \<noteq> 0 then 5 else 0))"
proof -
  have wf: "list_all wf_group rem"
    using assms(2) by (simp add: list_all_iff bcd_group_def wf_group_def bits_def)
  from step_value [OF assms(1) wf, of bin] obtain rem' where rem':
    "dec2bin_step (rem, bin) = Inr (rem', bin @ [last (last rem)])"
    "length rem' = length rem" "list_all wf_group rem'"
    "\<forall>i < length rem. bval (rem' ! i) =
        bval (rem ! i) div 2 + (if i = 0 then 0 else 5 * lsb (rem ! (i - 1)))"
    by blast
  have v: "\<forall>i < length rem. bin_value (rem' ! i) =
      bin_value (rem ! i) div 2 + (if 0 < i \<and> last (rem ! (i - 1)) \<noteq> 0 then 5 else 0)"
    using rem'(4) by (auto simp: bin_value_bval lsb_def int_bool_def)
  have "list_all bcd_group rem'"
    unfolding list_all_length
  proof (intro allI impI)
    fix i assume i: "i < length rem'"
    then have w: "wf_group (rem' ! i)" using rem'(3) by (simp add: list_all_length)
    have "bin_value (rem ! i) \<le> 9"
      using assms(2) i rem'(2) by (simp add: list_all_length bcd_group_def)
    then have "bin_value (rem' ! i) \<le> 9" using v i rem'(2) by auto
    with w show "bcd_group (rem' ! i)" by (simp add: bcd_group_def wf_group_def bits_def)
  qed
  with rem'(1,2) v show ?thesis by blast
qed

theorem dec2bin_step_correction_witness:
  "[[1, 0, 0, 1], [0, 0, 0, 1], [0, 0, 1, 1]] \<noteq> []
   \<and> list_all bcd_group [[1, 0, 0, 1], [0, 0, 0, 1], [0, 0, 1, 1]]
   \<and> (\<exists>rem'. dec2bin_step ([[1, 0, 0, 1], [0, 0, 0, 1], [0, 0, 1, 1]], []) = Inr (rem', [1])
         \<and> length rem' = 3 \<and> list_all bcd_group rem'
         \<and> bin_value (rem' ! 0) = 4 \<and> bin_value (rem' ! 1) = 5 \<and> bin_value (rem' ! 2) = 6)"
proof -
  have v: "bin_value [1, 0, 0, 1] = 9" "bin_value [0, 0, 0, 1] = 1" "bin_value [0, 0, 1, 1] = 3"
    by (simp_all add: bin_value_def bin_value_body_def int_bool_def)
  have h: "[[1, 0, 0, 1], [0, 0, 0, 1], [0, 0, 1, 1::int]] \<noteq> []"
    "list_all bcd_group [[1, 0, 0, 1], [0, 0, 0, 1], [0, 0, 1, 1]]"
    by (simp_all add: bcd_group_def v)
  let ?rem = "[[1, 0, 0, 1], [0, 0, 0, 1], [0, 0, 1, 1::int]]"
  from dec2bin_step_correction [OF h, of "[]"] obtain rem' where r:
    "dec2bin_step (?rem, []) = Inr (rem', [] @ [last (last ?rem)])"
    "length rem' = length ?rem" "list_all bcd_group rem'"
    "\<forall>i < length ?rem. bin_value (rem' ! i) =
        bin_value (?rem ! i) div 2 + (if 0 < i \<and> last (?rem ! (i - 1)) \<noteq> 0 then 5 else 0)"
    by blast
  have l: "(0::nat) < length ?rem" "(1::nat) < length ?rem" "(2::nat) < length ?rem" by simp_all
  have "bin_value (rem' ! 0) = 4"  using r(4) [rule_format, OF l(1)] by (simp add: v)
  moreover have "bin_value (rem' ! 1) = 5" using r(4) [rule_format, OF l(2)] by (simp add: v)
  moreover have "bin_value (rem' ! 2) = 6" using r(4) [rule_format, OF l(3)] by (simp add: v)
  ultimately show ?thesis using h r(1,2,3) by simp
qed

text \<open>
  Claim C5. For \<open>0 \<le> x < 2 ^ 32\<close>, \<open>binary_int32_big x\<close> is a string of 32
  characters, each \<open>0\<close> or \<open>1\<close>; its digits read as integers have \<open>bin_value\<close> equal
  to \<open>x\<close>; and its reversal is \<open>binary_int32_lit x\<close>.
\<close>

theorem binary_int32_big_correct:
  assumes "0 \<le> x" "x < 2 ^ 32"
  shows "length (binary_int32_big x) = 32
    \<and> list_all (\<lambda>c. c = CHR ''0'' \<or> c = CHR ''1'') (binary_int32_big x)
    \<and> (\<exists>d. str_digits (binary_int32_big x) = Inr d \<and> bin_value d = x)
    \<and> rev (binary_int32_big x) = binary_int32_lit x"
proof -
  let ?d = "big_loop 32 x []"
  from big_loop_props [OF assms] have d: "length ?d = 32" "bits ?d" "bval ?d = x" by simp_all
  from lit_loop_props [OF assms] have l: "bits (lit_loop 32 x [])" by simp
  have s: "binary_int32_big x = map bit_char ?d"
    using d(2) by (simp add: binary_int32_big_def join_str_bits)
  have c: "list_all (\<lambda>c. c = CHR ''0'' \<or> c = CHR ''1'') (map bit_char ?d)"
    by (rule list_all_bit_char)
  have "rev (binary_int32_big x) = map bit_char (rev ?d)" by (simp add: s rev_map)
  also have "\<dots> = binary_int32_lit x"
    using rev_big_loop [OF assms] l by (simp add: binary_int32_lit_def join_str_bits)
  finally have r: "rev (binary_int32_big x) = binary_int32_lit x" .
  have "str_digits (binary_int32_big x) = Inr ?d" using d(2) by (simp add: s str_digits_bits)
  with d c r show ?thesis by (simp add: s bin_value_bval)
qed

theorem binary_int32_big_correct_witness:
  "(0::int) \<le> 913 \<and> (913::int) < 2 ^ 32
   \<and> length (binary_int32_big 913) = 32
   \<and> (\<exists>d. str_digits (binary_int32_big 913) = Inr d \<and> bin_value d = 913)
   \<and> rev (binary_int32_big 913) = binary_int32_lit 913"
  using binary_int32_big_correct [of 913] by simp

text \<open>
  Claim C6. For every bit array \<open>a\<close>, \<open>floor_div_2 a\<close> has the length of \<open>a\<close>, is
  \<open>a\<close> with a 0 put in front and the last element dropped, and has the value
  \<open>bin_value a div 2\<close>; \<open>floor_div_2 [0,1,0,1]\<close> is \<open>[0,0,1,0]\<close>, that is 5 and 2.
\<close>

theorem floor_div_2_correct:
  "length (floor_div_2 a) = length a
   \<and> floor_div_2 a = take (length a) (0 # a)
   \<and> bin_value (floor_div_2 a) = bin_value a div 2
   \<and> floor_div_2 [0, 1, 0, 1] = [0, 0, 1, 0]
   \<and> bin_value [0, 1, 0, 1] = 5 \<and> bin_value [0, 0, 1, 0] = 2"
proof -
  have 1: "length (floor_div_2 a) = length a" by (rule length_floor_div_2)
  have 2: "floor_div_2 a = take (length a) (0 # a)" by (rule floor_div_2_take)
  have 3: "bin_value (floor_div_2 a) = bin_value a div 2"
    by (simp only: bin_value_bval bval_floor_div_2)
  have 4: "floor_div_2 [0, 1, 0, 1] = [0, 0, 1, 0]" by (simp add: floor_div_2_def)
  have 5: "bin_value [0, 1, 0, 1] = 5" "bin_value [0, 0, 1, 0] = 2"
    by (simp_all add: bin_value_def bin_value_body_def int_bool_def)
  from 1 2 3 4 5 show ?thesis by blast
qed

text \<open>
  Claim C7. The result of \<open>bin_add\<close> on arrays of one length is a bit array of that
  length, returned as a normal result, and the result of \<open>floor_div_2\<close> has the length
  of its argument. Nothing reports what does not fit: \<open>bin_add [1,1] [0,1]\<close>, 3 + 1 in
  two bits, returns \<open>[0,0]\<close>, and \<open>floor_div_2 [1,1]\<close> returns \<open>[0,1]\<close>.
\<close>

theorem fixed_width_results:
  "(length a = length b \<longrightarrow>
      (\<exists>r. bin_add a b = Inr r \<and> length r = length a \<and> length r = length b))
   \<and> length (floor_div_2 c) = length c
   \<and> bin_add [1, 1] [0, 1] = Inr [0, 0]
   \<and> floor_div_2 [1, 1] = [0, 1]"
proof -
  have "length a = length b \<longrightarrow>
      (\<exists>r. bin_add a b = Inr r \<and> length r = length a \<and> length r = length b)"
    using bin_add_value [of a b] by auto
  moreover have "bin_add [1, 1] [0, 1] = Inr [0, 0]"
    by (simp add: bin_add_def bin_add_pass_def bin_add_body_def int_bool_def upt_rec [of 0])
  moreover have "floor_div_2 [1, 1] = [0, 1]" by (simp add: floor_div_2_def)
  ultimately show ?thesis by (simp add: length_floor_div_2)
qed

theorem fixed_width_results_witness:
  "length [1, 1, 1 :: int] = length [0, 0, 1 :: int]
   \<and> (\<exists>r. bin_add [1, 1, 1] [0, 0, 1] = Inr r \<and> length r = length [1, 1, 1 :: int])"
  using fixed_width_results [of "[1, 1, 1]" "[0, 0, 1]" "[]"] by simp

text \<open>
  Claim C8. The import statement of the demonstration script fails at its first name:
  \<open>binary.py\<close> defines \<open>bin_add\<close> and no \<open>bin_add_4\<close>, so the script ends with
  \<open>ImportError\<close> before \<open>main\<close> is called.
\<close>

theorem example_import_fails:
  "import_from binary_module_names example_imports = Inl (ImportError ''bin_add_4'')
   \<and> ''bin_add'' \<in> set binary_module_names"
  by (simp add: binary_module_names_def example_imports_def)

text \<open>
  Claim C9. For every string of decimal digits the loop of \<open>dec2bin\<close> returns: started
  on the digit groups of the string with no output, it stands after some number \<open>k\<close> of
  iterations in a state whose groups are all zero, it ends there with a list of bits,
  and \<open>dec2bin\<close> returns the prefix \<open>0b\<close> followed by those bits reversed and joined.
\<close>

theorem dec2bin_terminates:
  assumes "list_all is_digit s"
  shows "\<exists>rem k rem' bin. dec2bin_array s = Inr rem
           \<and> dec2bin_iter k (rem, []) = Inr (rem', bin) \<and> \<not> np_any rem'
           \<and> dec2bin_loop (rem, []) = Some (Inr bin)
           \<and> dec2bin s = Some (Inr (''0b'' @ join_str (rev bin)))"
proof -
  from dec2bin_array_digits [OF assms] obtain rem where rem:
    "dec2bin_array s = Inr rem" "list_all wf_group rem" by blast
  let ?bin = "bits_lsb (nat (bcd rem))"
  from iter_value [OF rem(2), of "[]"] obtain k rem' where k:
    "dec2bin_iter k (rem, []) = Inr (rem', ?bin)" "\<not> np_any rem'" by auto
  have l: "dec2bin_loop (rem, []) = Some (Inr ?bin)"
    using loop_value [OF rem(2), of "[]"] by simp
  then have "dec2bin s = Some (Inr (''0b'' @ join_str (rev ?bin)))"
    using rem(1) by (simp add: dec2bin_def)
  with rem(1) k l show ?thesis by blast
qed

theorem dec2bin_terminates_witness:
  "list_all is_digit ''1042''
   \<and> (\<exists>rem k rem' bin. dec2bin_array ''1042'' = Inr rem
          \<and> dec2bin_iter k (rem, []) = Inr (rem', bin) \<and> \<not> np_any rem'
          \<and> dec2bin_loop (rem, []) = Some (Inr bin)
          \<and> dec2bin ''1042'' = Some (Inr (''0b'' @ join_str (rev bin))))"
proof -
  have d: "list_all is_digit ''1042''" by (simp add: is_digit_def)
  from dec2bin_terminates [OF d] d show ?thesis by blast
qed

text \<open>
  Claim C10. For a string that consists of characters \<open>0\<close> only, the digit groups are
  all zero, so the loop condition fails at once, and \<open>dec2bin\<close> returns the
  two-character string \<open>0b\<close>.
\<close>

theorem dec2bin_all_zeros:
  assumes "list_all (\<lambda>c. c = CHR ''0'') s"
  shows "\<exists>rem. dec2bin_array s = Inr rem \<and> \<not> np_any rem \<and> dec2bin s = Some (Inr ''0b'')"
proof -
  have a: "dec2bin_array s = Inr (map (\<lambda>c. [0, 0, 0, 0]) s)"
    unfolding dec2bin_array_def
  proof (rule map_err_Inr)
    fix x assume "x \<in> set s"
    with assms have "x = CHR ''0''" by (simp add: list_all_iff)
    then show "dict_get dec2bin_dict [x] = Inr [0, 0, 0, 0]" by (simp add: dict_get_0)
  qed
  have n: "\<not> np_any (map (\<lambda>c. [0, 0, 0, 0]) s)"
    by (induction s) (simp_all add: np_any_def)
  then have "dec2bin_loop (map (\<lambda>c. [0, 0, 0, 0]) s, []) = Some (Inr [])"
    by (subst dec2bin_loop.simps) simp
  with a n show ?thesis by (simp add: dec2bin_def join_str_def)
qed

theorem dec2bin_all_zeros_witness:
  "list_all (\<lambda>c. c = CHR ''0'') ''000'' \<and> dec2bin ''000'' = Some (Inr ''0b'')"
proof -
  have z: "list_all (\<lambda>c. c = CHR ''0'') ''000''" by simp
  from dec2bin_all_zeros [OF z] z show ?thesis by blast
qed

end
